theory Spec2Isabelle
  imports Complex_Main "HOL-Library.Log_Nat"
begin

section \<open>Catalogs: parsed JSON documents\<close>

text \<open>
  A catalog is what \<^verbatim>\<open>JSON.parse\<close> returns for a locale file: a tree of own properties.
  An object node keeps its entries in insertion order, the order in which
  \<^verbatim>\<open>Object.entries\<close> lists keys that are not array indices. (JavaScript lists keys that are
  array indices first, in ascending order; the model keeps them where they were inserted.
  The functions below treat each key of an object on its own, so this changes the order of
  a result only, in the same way for equal lists.) The payload of a number is never
  inspected by the functions modelled here; it is kept as the rational value of the double.
  Values that \<^verbatim>\<open>JSON.parse\<close> cannot produce (\<^verbatim>\<open>undefined\<close>, functions, cyclic structures)
  are not part of the type.
\<close>

datatype json =
    JNull
  | JBool bool
  | JNum rat
  | JStr string
  | JArr "json list"
  | JObj "(string \<times> json) list"

type_synonym obj = "(string \<times> json) list"

text \<open>
  A JavaScript object has each key once: \<open>wf_json\<close> is the representation invariant of the
  entry lists (pairwise distinct keys, at every level).
\<close>

fun wf_json :: "json \<Rightarrow> bool" where
  "wf_json (JObj es) = (distinct (map fst es) \<and> (\<forall>(k, v) \<in> set es. wf_json v))"
| "wf_json (JArr xs) = (\<forall>x \<in> set xs. wf_json x)"
| "wf_json _ = True"

definition wf_catalog :: "obj \<Rightarrow> bool" where
  "wf_catalog es = wf_json (JObj es)"

text \<open>
  The test \<^verbatim>\<open>value && typeof value === 'object' && !Array.isArray(value)\<close>, which the
  source repeats in every traversal: \<^verbatim>\<open>null\<close> is falsy, an array is excluded, every other
  non-object has another \<^verbatim>\<open>typeof\<close>.
\<close>

fun isPlainObject :: "json \<Rightarrow> bool" where
  "isPlainObject (JObj es) = True"
| "isPlainObject _ = False"

fun entries :: "json \<Rightarrow> obj" where
  "entries (JObj es) = es"
| "entries _ = []"


section \<open>Property access on plain objects\<close>

text \<open>
  Objects made by \<^verbatim>\<open>JSON.parse\<close> and by an object literal inherit from
  \<^verbatim>\<open>Object.prototype\<close>. The operator \<^verbatim>\<open>key in result\<close> follows the prototype chain, so it
  is true for an own key and for each of the names below, own or not.
\<close>

definition Object_prototype_names :: "string list" where
  "Object_prototype_names =
     [''constructor'', ''__defineGetter__'', ''__defineSetter__'', ''hasOwnProperty'',
      ''__lookupGetter__'', ''__lookupSetter__'', ''isPrototypeOf'', ''propertyIsEnumerable'',
      ''toString'', ''valueOf'', ''__proto__'', ''toLocaleString'']"

definition hasOwn :: "obj \<Rightarrow> string \<Rightarrow> bool" where
  "hasOwn r k \<longleftrightarrow> map_of r k \<noteq> None"

definition key_in :: "string \<Rightarrow> obj \<Rightarrow> bool" where
  "key_in k r \<longleftrightarrow> hasOwn r k \<or> k \<in> set Object_prototype_names"

text \<open>
  \<^verbatim>\<open>result[key] = value\<close> on an own key replaces the value in place; on a key that is not
  own it appends a new own property (the inherited methods are writable data properties, so
  the assignment shadows them). The one exception, \<^verbatim>\<open>__proto__\<close>, is handled where
  \<open>assign\<close> is called.
\<close>

fun assign :: "obj \<Rightarrow> string \<Rightarrow> json \<Rightarrow> obj" where
  "assign [] k v = [(k, v)]"
| "assign ((k', v') # r) k v = (if k' = k then (k, v) # r else (k', v') # assign r k v)"


section \<open>TranslationUpdater: deepMerge and the merge step of updateTranslations\<close>

text \<open>
  \<^verbatim>\<open>deepMerge(target, source)\<close>: \<open>result\<close> starts as the copy \<^verbatim>\<open>{ ...target }\<close> and the loop
  runs over \<^verbatim>\<open>Object.entries(source)\<close>.

  The read \<^verbatim>\<open>result[key]\<close> of a key that is not own yields \<^verbatim>\<open>undefined\<close> or an inherited
  function, neither of which passes the object test, except for \<^verbatim>\<open>__proto__\<close>: there the
  read yields \<^verbatim>\<open>Object.prototype\<close>, the object test passes, and the assignment that follows
  calls the inherited setter, which replaces the prototype of \<open>result\<close> instead of storing a
  property. The value returned then is no longer a tree of own properties; the model
  returns \<open>None\<close> for exactly these runs and \<open>Some\<close> of the resulting own properties for all
  others.
\<close>

function deepMerge_loop :: "obj \<Rightarrow> obj \<Rightarrow> obj option" where
  "deepMerge_loop result [] = Some result"
| "deepMerge_loop result ((key, value) # rest) =
     (if isPlainObject value then
        (case map_of result key of
           None \<Rightarrow>
             if key = ''__proto__'' then None
             else deepMerge_loop (assign result key value) rest
         | Some old \<Rightarrow>
             if isPlainObject old then
               (case deepMerge_loop (entries old) (entries value) of
                  None \<Rightarrow> None
                | Some merged \<Rightarrow> deepMerge_loop (assign result key (JObj merged)) rest)
             else deepMerge_loop (assign result key value) rest)
      else if key_in key result then deepMerge_loop result rest
      else deepMerge_loop (assign result key value) rest)"
  by pat_completeness auto
termination
proof (relation "measure (\<lambda>(result, source). size (JObj source))")
  fix result :: obj and key :: string and "value" :: json and rest :: obj and old :: json
  assume "isPlainObject value"
  then show "((entries old, entries value), (result, (key, value) # rest))
               \<in> measure (\<lambda>(result, source). size (JObj source))"
    by (cases "value") auto
qed auto

definition deepMerge :: "obj \<Rightarrow> obj \<Rightarrow> obj option" where
  "deepMerge target source = deepMerge_loop target source"

text \<open>
  The merge step of \<^verbatim>\<open>updateTranslations\<close> (the statement that assigns
  \<^verbatim>\<open>updatedContent\<close>): with \<^verbatim>\<open>overwriteExisting\<close> the existing file content is the target
  of \<open>deepMerge\<close> and the new translations are its source, without it the other way round.
\<close>

definition updatedContent :: "bool \<Rightarrow> obj \<Rightarrow> obj \<Rightarrow> obj option" where
  "updatedContent overwriteExisting originalContent newTranslations =
     (if overwriteExisting then deepMerge originalContent newTranslations
      else deepMerge newTranslations originalContent)"


section \<open>Key paths: extractKeys, extractAllKeys, countKeys\<close>

text \<open>
  A JavaScript \<^verbatim>\<open>Set\<close> of strings is a list without repetitions in insertion order;
  \<open>set_add\<close> is \<^verbatim>\<open>keys.add(k)\<close> and \<open>new_Set\<close> is \<^verbatim>\<open>new Set(array)\<close>.
\<close>

definition set_add :: "string list \<Rightarrow> string \<Rightarrow> string list" where
  "set_add keys k = (if k \<in> set keys then keys else keys @ [k])"

definition new_Set :: "string list \<Rightarrow> string list" where
  "new_Set xs = fold (\<lambda>x keys. set_add keys x) xs []"

text \<open>\<^verbatim>\<open>prefix ? `${prefix}.${key}` : key\<close>: the empty prefix is falsy.\<close>

definition fullKey_of :: "string \<Rightarrow> string \<Rightarrow> string" where
  "fullKey_of prefix key = (if prefix = [] then key else prefix @ ''.'' @ key)"

text \<open>
  \<^verbatim>\<open>FileComparator.extractKeys\<close> and \<^verbatim>\<open>TranslationUpdater.extractAllKeys\<close> have the same
  body; \<open>extractKeys_loop\<close> is their loop, with the set \<open>keys\<close> built so far as state.
\<close>

function extractKeys_loop :: "string \<Rightarrow> string list \<Rightarrow> obj \<Rightarrow> string list" where
  "extractKeys_loop prefix keys [] = keys"
| "extractKeys_loop prefix keys ((key, value) # rest) =
     (let fullKey = fullKey_of prefix key;
          keys1 = set_add keys fullKey;
          keys2 = (if isPlainObject value
                   then fold (\<lambda>nestedKey ks. set_add ks nestedKey)
                          (extractKeys_loop fullKey [] (entries value)) keys1
                   else keys1)
      in extractKeys_loop prefix keys2 rest)"
  by pat_completeness auto
termination
proof (relation "measure (\<lambda>(prefix, keys, es). size (JObj es))")
  fix prefix :: string and keys :: "string list" and key :: string and "value" :: json
    and rest :: obj and fullKey :: string
  assume "isPlainObject value"
  then show "((fullKey, [], entries value), (prefix, keys, (key, value) # rest))
               \<in> measure (\<lambda>(prefix, keys, es). size (JObj es))"
    by (cases "value") auto
qed auto

definition extractKeys :: "obj \<Rightarrow> string \<Rightarrow> string list" where
  "extractKeys obj prefix = extractKeys_loop prefix [] obj"

definition extractAllKeys :: "obj \<Rightarrow> string \<Rightarrow> string list" where
  "extractAllKeys obj prefix = extractKeys_loop prefix [] obj"



text \<open>
  Two predicates on catalogs and two sets of key paths, used to state facts about the merge:
  \<open>proto_free\<close> holds when no object reached through object values has the key
  \<^verbatim>\<open>__proto__\<close>, \<open>plain_keys\<close> when none of its keys is a name inherited from
  \<^verbatim>\<open>Object.prototype\<close>; \<open>key_paths\<close> is the set of the key paths that \<open>extractAllKeys\<close>
  returns, \<open>node_paths\<close> the part of it that one entry contributes.
\<close>

fun proto_free :: "json \<Rightarrow> bool" where
  "proto_free (JObj es) = (\<forall>(k, v) \<in> set es. k \<noteq> ''__proto__'' \<and> proto_free v)"
| "proto_free _ = True"

fun plain_keys :: "json \<Rightarrow> bool" where
  "plain_keys (JObj es) = (\<forall>(k, v) \<in> set es. k \<notin> set Object_prototype_names \<and> plain_keys v)"
| "plain_keys _ = True"

definition key_paths :: "string \<Rightarrow> obj \<Rightarrow> string set" where
  "key_paths prefix obj = set (extractAllKeys obj prefix)"

definition node_paths :: "string \<Rightarrow> string \<Rightarrow> json \<Rightarrow> string set" where
  "node_paths prefix key value =
     insert (fullKey_of prefix key)
       (if isPlainObject value then key_paths (fullKey_of prefix key) (entries value) else {})"


section \<open>Numbers: the double arithmetic of the completion percentage\<close>

text \<open>
  The set sizes are non-negative integers below \<open>2^53\<close>, exact as doubles. A quotient and a
  product are rounded to the nearest double, ties to even, with 53 significant bits (\<open>fl\<close>;
  the values that occur are far from overflow and underflow). \<open>0 / 0\<close> is \<^verbatim>\<open>NaN\<close>, which
  every later operation passes on.
\<close>

datatype jsnum = NaN | PosInfinity | Num rat

definition pow2 :: "int \<Rightarrow> rat" where
  "pow2 k = (if 0 \<le> k then 2 ^ nat k else 1 / 2 ^ nat (- k))"

definition ilog2 :: "rat \<Rightarrow> int" where
  "ilog2 x = (let (n, d) = quotient_of x;
                  k = bitlen n - bitlen d
              in if pow2 k \<le> x then k else k - 1)"

definition round_half_even :: "rat \<Rightarrow> int" where
  "round_half_even q = (let f = \<lfloor>q\<rfloor>; r = q - of_int f
                        in if r < 1 / 2 then f
                           else if 1 / 2 < r then f + 1
                           else if even f then f else f + 1)"

definition fl :: "rat \<Rightarrow> rat" where
  "fl x = (if x \<le> 0 then 0
           else let ulp = pow2 (ilog2 x - 52)
                in of_int (round_half_even (x / ulp)) * ulp)"

definition js_div :: "nat \<Rightarrow> nat \<Rightarrow> jsnum" where
  "js_div a b = (if b = 0 then (if a = 0 then NaN else PosInfinity)
                 else Num (fl (of_nat a / of_nat b)))"

fun js_times :: "jsnum \<Rightarrow> nat \<Rightarrow> jsnum" where
  "js_times NaN c = NaN"
| "js_times PosInfinity c = (if c = 0 then NaN else PosInfinity)"
| "js_times (Num x) c = Num (fl (x * of_nat c))"

text \<open>\<^verbatim>\<open>Math.round\<close>: the nearest integer, a tie towards \<open>+\<infinity>\<close>.\<close>

fun Math_round :: "jsnum \<Rightarrow> jsnum" where
  "Math_round NaN = NaN"
| "Math_round PosInfinity = PosInfinity"
| "Math_round (Num x) = Num (of_int \<lfloor>x + 1 / 2\<rfloor>)"


section \<open>Files\<close>

text \<open>
  A file holds text; what matters here is what \<^verbatim>\<open>JSON.parse\<close> makes of it: \<open>Doc c\<close> is a
  text that parses to the object \<open>c\<close> (\<^verbatim>\<open>formatJson\<close> writes such a text), \<open>Malformed\<close> one
  that \<^verbatim>\<open>JSON.parse\<close> rejects. Files whose root is not an object are not modelled. Reading,
  copying and writing are taken to succeed.
\<close>

datatype content = Doc obj | Malformed

type_synonym files = "string \<Rightarrow> content option"

datatype structure_message =
    NoReferenceMessage
  | PassedMessage
  | MismatchMessage nat nat

datatype error =
    FileNotFound string
  | SyntaxError
  | BackupNotFound "string option"
  | PreWriteValidationFailed structure_message


section \<open>FileComparator: compare\<close>

definition loadJsonFile :: "files \<Rightarrow> string \<Rightarrow> error + obj" where
  "loadJsonFile fs filePath =
     (case fs filePath of
        None \<Rightarrow> Inl (FileNotFound filePath)
      | Some Malformed \<Rightarrow> Inl SyntaxError
      | Some (Doc c) \<Rightarrow> Inr c)"

text \<open>
  The result of \<^verbatim>\<open>compare\<close>, without the fields that echo the two inputs and without
  \<^verbatim>\<open>missingTranslations\<close>.
\<close>

record comparison =
  missingKeys :: "string list"
  extraKeys :: "string list"
  missingCount :: nat
  extraCount :: nat
  totalReferenceKeys :: nat
  totalTargetKeys :: nat
  completionPercentage :: jsnum

definition compare :: "files \<Rightarrow> string \<Rightarrow> string \<Rightarrow> error + comparison" where
  "compare fs referencePath targetPath =
     (case loadJsonFile fs referencePath of
        Inl err \<Rightarrow> Inl err
      | Inr reference \<Rightarrow>
          (case (if fs targetPath \<noteq> None then loadJsonFile fs targetPath else Inr []) of
             Inl err \<Rightarrow> Inl err
           | Inr target \<Rightarrow>
               (let referenceKeys = extractKeys reference [];
                    targetKeys = extractKeys target [];
                    missing = filter (\<lambda>key. key \<notin> set targetKeys) referenceKeys;
                    extra = filter (\<lambda>key. key \<notin> set referenceKeys) targetKeys
                in Inr \<lparr>missingKeys = missing,
                        extraKeys = extra,
                        missingCount = length missing,
                        extraCount = length extra,
                        totalReferenceKeys = length referenceKeys,
                        totalTargetKeys = length targetKeys,
                        completionPercentage =
                          Math_round
                            (js_times
                               (js_div (length referenceKeys - length missing)
                                  (length referenceKeys))
                               100)\<rparr>)))"


section \<open>TranslationUpdater: backup, validation and the complete-file update\<close>






















section \<open>Validator: placeholders\<close>

text \<open>
  \<^verbatim>\<open>text.match(/\{[^}]+\}/g) || []\<close>: scanning from the left, a match starts at an opening
  brace that is followed by at least one character other than a closing brace and then by
  a closing brace; the scan goes on behind the match, or at the next character when
  there is none. (Strings are sequences of code units; the braces are single units in
  every encoding.)
\<close>

function match_placeholders :: "string \<Rightarrow> string list" where
  "match_placeholders [] = []"
| "match_placeholders (c # cs) =
     (if c = CHR ''{'' then
        (let body = takeWhile (\<lambda>x. x \<noteq> CHR ''}'') cs;
             after = dropWhile (\<lambda>x. x \<noteq> CHR ''}'') cs
         in if body \<noteq> [] \<and> after \<noteq> []
            then (c # body @ ''}'') # match_placeholders (tl after)
            else match_placeholders cs)
      else match_placeholders cs)"
  by pat_completeness auto
termination
proof (relation "measure length")
  fix c :: char and cs body after :: string
  assume "after = dropWhile (\<lambda>x. x \<noteq> CHR ''}'') cs"
  then show "(tl after, c # cs) \<in> measure length"
    using length_dropWhile_le [of "\<lambda>x. x \<noteq> CHR ''}''" cs] by simp
qed auto

text \<open>The set of placeholders of a text: \<^verbatim>\<open>new Set(text.match(/\{[^}]+\}/g) || [])\<close>.\<close>

definition placeholderSet :: "string \<Rightarrow> string list" where
  "placeholderSet str = new_Set (match_placeholders str)"

text \<open>\<^verbatim>\<open>isValidPlaceholder\<close>: the test \<^verbatim>\<open>/^\{[a-zA-Z0-9_-]+\}$/\<close>.\<close>

definition identifier_chars :: string where
  "identifier_chars =
     ''abcdefghijklmnopqrstuvwxyzABCDEFGHIJKLMNOPQRSTUVWXYZ0123456789_-''"

definition isValidPlaceholder :: "string \<Rightarrow> bool" where
  "isValidPlaceholder placeholder =
     (case placeholder of
        [] \<Rightarrow> False
      | c # cs \<Rightarrow>
          c = CHR ''{'' \<and> cs \<noteq> [] \<and> last cs = CHR ''}'' \<and> butlast cs \<noteq> []
          \<and> (\<forall>x \<in> set (butlast cs). x \<in> set identifier_chars))"

text \<open>
  The tokens as the specification words them, for comparison, with the alphabet of the body
  widened to what the pattern of the extraction admits: a token is an opening brace, one or
  more characters other than a closing brace, and a closing brace.
\<close>

definition is_brace_token :: "string \<Rightarrow> bool" where
  "is_brace_token t =
     (case t of
        [] \<Rightarrow> False
      | c # cs \<Rightarrow>
          c = CHR ''{'' \<and> cs \<noteq> [] \<and> last cs = CHR ''}'' \<and> butlast cs \<noteq> []
          \<and> CHR ''}'' \<notin> set (butlast cs))"

text \<open>The part of a text behind its last closing brace (the whole text when it has none).\<close>

definition after_last_close :: "string \<Rightarrow> string" where
  "after_last_close pre = rev (takeWhile (\<lambda>x. x \<noteq> CHR ''}'') (rev pre))"

text \<open>
  The tokens of a text: its substrings that are tokens and start at the first opening brace
  behind the preceding closing brace (or behind the start of the text). These are the
  leftmost tokens that do not overlap: a token ends at the first closing brace behind its
  start, so an opening brace inside it starts no token of its own.
\<close>

definition brace_tokens :: "string \<Rightarrow> string set" where
  "brace_tokens str =
     {t. is_brace_token t
         \<and> (\<exists>pre post. str = pre @ t @ post \<and> CHR ''{'' \<notin> set (after_last_close pre))}"

record validation_error =
  message :: string
  context_path :: string
  context_placeholder :: string
  context_reference :: string
  context_translation :: string

definition placeholder_error ::
  "string \<Rightarrow> string \<Rightarrow> string \<Rightarrow> string \<Rightarrow> string \<Rightarrow> validation_error" where
  "placeholder_error kind placeholder path referenceText translatedText =
     \<lparr>message = kind @ '' placeholder in translation: '' @ placeholder @ '' at '' @ path,
      context_path = path, context_placeholder = placeholder,
      context_reference = referenceText, context_translation = translatedText\<rparr>"

text \<open>
  \<^verbatim>\<open>validatePlaceholderConsistency\<close>, with the list \<^verbatim>\<open>this.errors\<close> passed in and returned.
  Each loop returns at the first placeholder it finds wanting.
\<close>

definition validatePlaceholderConsistency ::
  "validation_error list \<Rightarrow> string \<Rightarrow> string \<Rightarrow> string \<Rightarrow> bool \<times> validation_error list" where
  "validatePlaceholderConsistency errors referenceText translatedText path =
     (let refPlaceholders = placeholderSet referenceText;
          transPlaceholders = placeholderSet translatedText
      in case find (\<lambda>placeholder. placeholder \<notin> set transPlaceholders) refPlaceholders of
           Some placeholder \<Rightarrow>
             (False,
              errors @ [placeholder_error ''Missing'' placeholder path referenceText translatedText])
         | None \<Rightarrow>
             (case find (\<lambda>placeholder. placeholder \<notin> set refPlaceholders) transPlaceholders of
                Some placeholder \<Rightarrow>
                  (False,
                   errors @ [placeholder_error ''Extra'' placeholder path referenceText translatedText])
              | None \<Rightarrow> (True, errors)))"


section \<open>NewKeysCSVExtractor: escapeCSVValue and createCSVRow\<close>

text \<open>
  A field is \<^verbatim>\<open>null\<close> (or \<^verbatim>\<open>undefined\<close>) or a value whose \<^verbatim>\<open>String(value)\<close> is the given
  text. \<open>CHR 0x22\<close> is the double quote, \<open>CHR 0x0A\<close> the line feed, \<open>CHR 0x0D\<close> the carriage
  return.
\<close>

datatype csv_value = CsvNull | CsvText string

text \<open>\<^verbatim>\<open>stringValue.replace(/"/g, '""')\<close>\<close>

fun replace_quotes :: "string \<Rightarrow> string" where
  "replace_quotes [] = []"
| "replace_quotes (c # cs) =
     (if c = CHR 0x22 then CHR 0x22 # CHR 0x22 # replace_quotes cs else c # replace_quotes cs)"

definition string_includes :: "string \<Rightarrow> char \<Rightarrow> bool" where
  "string_includes s c \<longleftrightarrow> c \<in> set s"

fun escapeCSVValue :: "csv_value \<Rightarrow> string" where
  "escapeCSVValue CsvNull = []"
| "escapeCSVValue (CsvText stringValue) =
     (if string_includes stringValue CHR '','' \<or> string_includes stringValue CHR 0x22
         \<or> string_includes stringValue CHR 0x0A \<or> string_includes stringValue CHR 0x0D
      then [CHR 0x22] @ replace_quotes stringValue @ [CHR 0x22]
      else stringValue)"

text \<open>
  The quoting as the specification words it, for comparison: the field between double
  quotes, each double quote of the field doubled.
\<close>

definition rfc4180_quoted :: "string \<Rightarrow> string" where
  "rfc4180_quoted s =
     [CHR 0x22]
     @ concat (map (\<lambda>c. if c = CHR 0x22 then [CHR 0x22, CHR 0x22] else [c]) s)
     @ [CHR 0x22]"

fun join :: "string \<Rightarrow> string list \<Rightarrow> string" where
  "join sep [] = []"
| "join sep [x] = x"
| "join sep (x # y # ys) = x @ sep @ join sep (y # ys)"

definition createCSVRow :: "csv_value list \<Rightarrow> string" where
  "createCSVRow rowData = join '','' (map escapeCSVValue rowData)"


section \<open>Facts about deepMerge\<close>

lemma map_of_assign: "map_of (assign r k v) k' = (if k' = k then Some v else map_of r k')"
  by (induction r) auto

lemma assign_same: "map_of r k = Some v \<Longrightarrow> assign r k v = r"
  by (induction r) (auto split: if_splits)

lemma loop_keys_mono:
  "deepMerge_loop r es = Some M \<Longrightarrow> hasOwn r k \<Longrightarrow> hasOwn M k"
  by (induction r es arbitrary: M rule: deepMerge_loop.induct)
     (auto split: option.splits if_splits simp: map_of_assign hasOwn_def)

lemma loop_other_key:
  "deepMerge_loop r es = Some M \<Longrightarrow> k \<notin> fst ` set es \<Longrightarrow> map_of M k = map_of r k"
  by (induction r es arbitrary: M rule: deepMerge_loop.induct)
     (auto split: option.splits if_splits simp: map_of_assign)

text \<open>Merging entries that the target already holds, value for value, changes nothing.\<close>

lemma loop_self:
  "(\<forall>(k, v) \<in> set es. map_of r k = Some v \<and> wf_json v) \<Longrightarrow> deepMerge_loop r es = Some r"
proof (induction r es rule: deepMerge_loop.induct)
  case (1 result)
  then show ?case by simp
next
  case (2 result key "value" rest)
  have own: "map_of result key = Some value" and wfv: "wf_json value"
    and rest: "\<forall>(k, v) \<in> set rest. map_of result k = Some v \<and> wf_json v"
    using "2.prems" by auto
  have own_in: "key_in key result"
    using own by (simp add: key_in_def hasOwn_def)
  show ?case
  proof (cases "isPlainObject value")
    case True
    then obtain s where s: "value = JObj s" by (cases "value") auto
    have "\<forall>(k, v) \<in> set s. map_of s k = Some v \<and> wf_json v"
      using wfv s by auto
    then have inner: "deepMerge_loop s s = Some s"
      using "2.IH"(2) [OF True own True] s by simp
    have same: "assign result key (JObj s) = result"
      using own s by (simp add: assign_same)
    have "deepMerge_loop result rest = Some result"
      using "2.IH"(3) [OF True own True, of s] inner same rest s by simp
    then show ?thesis using s own inner same by simp
  next
    case False
    then have "deepMerge_loop result rest = Some result"
      using "2.IH"(5) own_in rest by simp
    then show ?thesis using False own_in by simp
  qed
qed

text \<open>
  The loop run a second time over the same source, from its own result, stops at that
  result: each key of the source is distinct from the later ones, so the value the first run
  left at the key is still there, and the step for the key reproduces it.
\<close>

lemma loop_idem:
  "deepMerge_loop r es = Some M \<Longrightarrow> wf_json (JObj es) \<Longrightarrow> deepMerge_loop M es = Some M"
proof (induction r es arbitrary: M rule: deepMerge_loop.induct)
  case (1 result)
  then show ?case by simp
next
  case (2 result key "value" rest)
  have notin: "key \<notin> fst ` set rest" and wfrest: "wf_json (JObj rest)" and wfv: "wf_json value"
    using "2.prems"(2) by auto
  show ?case
  proof (cases "isPlainObject value")
    case plain: True
    then obtain s where s: "value = JObj s" by (cases "value") auto
    have self: "deepMerge_loop s s = Some s"
      using wfv s by (intro loop_self) auto
    show ?thesis
    proof (cases "map_of result key")
      case None
      then have np: "key \<noteq> ''__proto__''"
        and run: "deepMerge_loop (assign result key value) rest = Some M"
        using "2.prems"(1) plain by (auto split: if_splits)
      have M1: "deepMerge_loop M rest = Some M"
        using "2.IH"(1) [OF plain None np run wfrest] .
      have "map_of M key = Some (JObj s)"
        using loop_other_key[OF run notin] s by (simp add: map_of_assign)
      then show ?thesis using s M1 self by (simp add: assign_same)
    next
      case (Some old)
      show ?thesis
      proof (cases "isPlainObject old")
        case True
        from "2.prems"(1) plain Some True obtain m where
          m: "deepMerge_loop (entries old) (entries value) = Some m"
          and run: "deepMerge_loop (assign result key (JObj m)) rest = Some M"
          by (auto split: option.splits)
        have M1: "deepMerge_loop M rest = Some M"
          using "2.IH"(3) [OF plain Some True m run wfrest] .
        have Mk: "map_of M key = Some (JObj m)"
          using loop_other_key[OF run notin] by (simp add: map_of_assign)
        have "wf_json (JObj (entries value))"
          using wfv s by simp
        then have "deepMerge_loop m (entries value) = Some m"
          using "2.IH"(2) [OF plain Some True m] by simp
        then show ?thesis using s Mk M1 by (simp add: assign_same)
      next
        case False
        then have run: "deepMerge_loop (assign result key value) rest = Some M"
          using "2.prems"(1) plain Some by simp
        have M1: "deepMerge_loop M rest = Some M"
          using "2.IH"(4) [OF plain Some False run wfrest] .
        have "map_of M key = Some (JObj s)"
          using loop_other_key[OF run notin] s by (simp add: map_of_assign)
        then show ?thesis using s M1 self by (simp add: assign_same)
      qed
    qed
  next
    case leaf: False
    show ?thesis
    proof (cases "key_in key result")
      case True
      then have run: "deepMerge_loop result rest = Some M"
        using "2.prems"(1) leaf by simp
      have "deepMerge_loop M rest = Some M"
        using "2.IH"(5) [OF leaf True run wfrest] .
      moreover have "key_in key M"
        using True loop_keys_mono[OF run] by (auto simp: key_in_def)
      ultimately show ?thesis using leaf by simp
    next
      case nin: False
      then have run: "deepMerge_loop (assign result key value) rest = Some M"
        using "2.prems"(1) leaf by simp
      have "deepMerge_loop M rest = Some M"
        using "2.IH"(6) [OF leaf nin run wfrest] .
      moreover have "key_in key M"
        using loop_keys_mono[OF run, of key] by (simp add: key_in_def hasOwn_def map_of_assign)
      ultimately show ?thesis using leaf by simp
    qed
  qed
qed


text \<open>The merge returns a tree for every source without a \<^verbatim>\<open>__proto__\<close> key.\<close>

lemma loop_returns:
  "proto_free (JObj es) \<Longrightarrow> \<exists>M. deepMerge_loop r es = Some M"
proof (induction r es rule: deepMerge_loop.induct)
  case (1 result)
  then show ?case by simp
next
  case (2 result key "value" rest)
  have key: "key \<noteq> ''__proto__''" and pv: "proto_free value" and pr: "proto_free (JObj rest)"
    using "2.prems" by auto
  show ?case
  proof (cases "isPlainObject value")
    case plain: True
    then have pe: "proto_free (JObj (entries value))"
      using pv by (cases "value") auto
    show ?thesis
    proof (cases "map_of result key")
      case None
      then show ?thesis using "2.IH"(1) [OF plain None key pr] plain key by simp
    next
      case (Some old)
      show ?thesis
      proof (cases "isPlainObject old")
        case True
        from "2.IH"(2) [OF plain Some True pe] obtain m where
          m: "deepMerge_loop (entries old) (entries value) = Some m" by blast
        from "2.IH"(3) [OF plain Some True m pr] show ?thesis
          using plain Some True m by simp
      next
        case False
        from "2.IH"(4) [OF plain Some False pr] show ?thesis
          using plain Some False by simp
      qed
    qed
  next
    case leaf: False
    show ?thesis
    proof (cases "key_in key result")
      case True
      from "2.IH"(5) [OF leaf True pr] show ?thesis using leaf True by simp
    next
      case False
      from "2.IH"(6) [OF leaf False pr] show ?thesis using leaf False by simp
    qed
  qed
qed

lemma deepMerge_returns:
  "proto_free (JObj B) \<Longrightarrow> \<exists>M. deepMerge A B = Some M"
  by (simp add: deepMerge_def loop_returns)

text \<open>
  A leaf of the target survives the merge, whatever the source holds at its key, unless that
  is an object: the precedence of \<open>deepMerge\<close> on leaves is with its first argument.
\<close>

lemma loop_keeps_leaf:
  "deepMerge_loop r es = Some M \<Longrightarrow> map_of r k = Some v \<Longrightarrow> \<not> isPlainObject v \<Longrightarrow>
   (\<forall>x. (k, x) \<in> set es \<longrightarrow> \<not> isPlainObject x) \<Longrightarrow> map_of M k = Some v"
proof (induction r es arbitrary: M rule: deepMerge_loop.induct)
  case (1 result)
  then show ?case by simp
next
  case (2 result key "value" rest)
  have restk: "\<forall>x. (k, x) \<in> set rest \<longrightarrow> \<not> isPlainObject x"
    using "2.prems"(4) by auto
  show ?case
  proof (cases "isPlainObject value")
    case plain: True
    then have ne: "key \<noteq> k" using "2.prems"(4) by auto
    show ?thesis
    proof (cases "map_of result key")
      case None
      with "2.prems"(1) plain have np: "key \<noteq> ''__proto__''"
        and run: "deepMerge_loop (assign result key value) rest = Some M"
        by (auto split: if_splits)
      from "2.IH"(1) [OF plain None np run _ "2.prems"(3) restk] show ?thesis
        using "2.prems"(2) ne by (simp add: map_of_assign)
    next
      case (Some old)
      show ?thesis
      proof (cases "isPlainObject old")
        case True
        from "2.prems"(1) plain Some True obtain m where
          m: "deepMerge_loop (entries old) (entries value) = Some m"
          and run: "deepMerge_loop (assign result key (JObj m)) rest = Some M"
          by (auto split: option.splits)
        from "2.IH"(3) [OF plain Some True m run _ "2.prems"(3) restk] show ?thesis
          using "2.prems"(2) ne by (simp add: map_of_assign)
      next
        case False
        then have run: "deepMerge_loop (assign result key value) rest = Some M"
          using "2.prems"(1) plain Some by simp
        from "2.IH"(4) [OF plain Some False run _ "2.prems"(3) restk] show ?thesis
          using "2.prems"(2) ne by (simp add: map_of_assign)
      qed
    qed
  next
    case leaf: False
    show ?thesis
    proof (cases "key_in key result")
      case True
      then have run: "deepMerge_loop result rest = Some M"
        using "2.prems"(1) leaf by simp
      from "2.IH"(5) [OF leaf True run "2.prems"(2,3) restk] show ?thesis .
    next
      case False
      then have run: "deepMerge_loop (assign result key value) rest = Some M"
        using "2.prems"(1) leaf by simp
      have "key \<noteq> k"
        using False "2.prems"(2) by (auto simp: key_in_def hasOwn_def)
      with "2.IH"(6) [OF leaf False run _ "2.prems"(3) restk] show ?thesis
        using "2.prems"(2) by (simp add: map_of_assign)
    qed
  qed
qed

lemma deepMerge_keeps_target_leaf:
  assumes "deepMerge target source = Some M"
    and "map_of target k = Some v" and "\<not> isPlainObject v"
    and "\<forall>x. (k, x) \<in> set source \<longrightarrow> \<not> isPlainObject x"
  shows "map_of M k = Some v"
  using assms loop_keeps_leaf [of target source M k v] by (simp add: deepMerge_def)

text \<open>The representation invariant is kept by the assignment and by the merge.\<close>

lemma map_fst_assign:
  "map fst (assign r k x) = (if k \<in> set (map fst r) then map fst r else map fst r @ [k])"
  by (induction r) (force split: if_splits)+

lemma distinct_assign: "distinct (map fst r) \<Longrightarrow> distinct (map fst (assign r k x))"
  by (simp add: map_fst_assign)

lemma values_assign: "(k', v') \<in> set (assign r k x) \<Longrightarrow> (k', v') \<in> set r \<or> (k', v') = (k, x)"
  by (induction r) (auto split: if_splits)

lemma wf_assign:
  assumes "wf_json (JObj r)" and "wf_json x"
  shows "wf_json (JObj (assign r k x))"
proof -
  have "wf_json v'" if "(k', v') \<in> set (assign r k x)" for k' v'
    using values_assign [OF that] assms by auto
  then show ?thesis
    using assms(1) distinct_assign [of r k x] by auto
qed

lemma wf_entries: "wf_json v \<Longrightarrow> isPlainObject v \<Longrightarrow> wf_json (JObj (entries v))"
  by (cases v) auto

lemma wf_lookup: "wf_json (JObj r) \<Longrightarrow> map_of r k = Some v \<Longrightarrow> wf_json v"
  by (auto dest: map_of_SomeD)

lemma loop_wf:
  "deepMerge_loop r es = Some M \<Longrightarrow> wf_json (JObj r) \<Longrightarrow> wf_json (JObj es) \<Longrightarrow>
   wf_json (JObj M)"
proof (induction r es arbitrary: M rule: deepMerge_loop.induct)
  case (1 result)
  then show ?case by simp
next
  case (2 result key "value" rest)
  have wfr: "wf_json (JObj result)" by fact
  have wfrest: "wf_json (JObj rest)" and wfv: "wf_json value"
    using "2.prems"(3) by auto
  have wfa: "wf_json (JObj (assign result key value))"
    using wfr wfv by (rule wf_assign)
  show ?case
  proof (cases "isPlainObject value")
    case plain: True
    show ?thesis
    proof (cases "map_of result key")
      case None
      with "2.prems"(1) plain have np: "key \<noteq> ''__proto__''"
        and run: "deepMerge_loop (assign result key value) rest = Some M"
        by (auto split: if_splits)
      from "2.IH"(1) [OF plain None np run wfa wfrest] show ?thesis .
    next
      case (Some old)
      show ?thesis
      proof (cases "isPlainObject old")
        case True
        from "2.prems"(1) plain Some True obtain m where
          m: "deepMerge_loop (entries old) (entries value) = Some m"
          and run: "deepMerge_loop (assign result key (JObj m)) rest = Some M"
          by (auto split: option.splits)
        have "wf_json (JObj m)"
          using "2.IH"(2) [OF plain Some True m] wf_entries [OF wf_lookup [OF wfr Some] True]
            wf_entries [OF wfv plain] by simp
        then have "wf_json (JObj (assign result key (JObj m)))"
          using wfr by (intro wf_assign)
        from "2.IH"(3) [OF plain Some True m run this wfrest] show ?thesis .
      next
        case False
        then have run: "deepMerge_loop (assign result key value) rest = Some M"
          using "2.prems"(1) plain Some by simp
        from "2.IH"(4) [OF plain Some False run wfa wfrest] show ?thesis .
      qed
    qed
  next
    case leaf: False
    show ?thesis
    proof (cases "key_in key result")
      case True
      then have run: "deepMerge_loop result rest = Some M"
        using "2.prems"(1) leaf by simp
      from "2.IH"(5) [OF leaf True run wfr wfrest] show ?thesis .
    next
      case False
      then have run: "deepMerge_loop (assign result key value) rest = Some M"
        using "2.prems"(1) leaf by simp
      from "2.IH"(6) [OF leaf False run wfa wfrest] show ?thesis .
    qed
  qed
qed


section \<open>Facts about key paths\<close>

lemma set_fold_set_add: "set (fold (\<lambda>x keys. set_add keys x) xs acc) = set acc \<union> set xs"
  by (induction xs arbitrary: acc) (auto simp: set_add_def)

lemma set_set_add: "set (set_add keys k) = insert k (set keys)"
  by (auto simp: set_add_def)

lemma set_extractKeys_loop:
  "set (extractKeys_loop prefix keys es) = set keys \<union> set (extractKeys_loop prefix [] es)"
proof (induction es arbitrary: keys)
  case Nil
  then show ?case by simp
next
  case (Cons e rest)
  obtain key "value" where e: "e = (key, value)" by (cases e)
  let ?full = "fullKey_of prefix key"
  let ?nested = "extractKeys_loop ?full [] (entries value)"
  let ?k2 = "\<lambda>keys. (if isPlainObject value
                   then fold (\<lambda>nestedKey ks. set_add ks nestedKey) ?nested (set_add keys ?full)
                   else set_add keys ?full)"
  have "set (extractKeys_loop prefix keys (e # rest))
          = set (?k2 keys) \<union> set (extractKeys_loop prefix [] rest)"
    using Cons.IH [of "?k2 keys"] e by (simp add: Let_def)
  moreover have "set (extractKeys_loop prefix [] (e # rest))
          = set (?k2 []) \<union> set (extractKeys_loop prefix [] rest)"
    using Cons.IH [of "?k2 []"] e by (simp add: Let_def)
  moreover have "set (?k2 keys) = set keys \<union> set (?k2 [])"
    by (auto simp: set_fold_set_add set_set_add)
  ultimately show ?case by auto
qed

lemma key_paths_Nil: "key_paths prefix [] = {}"
  by (simp add: key_paths_def extractAllKeys_def)

lemma key_paths_Cons:
  "key_paths prefix ((key, value) # rest) = node_paths prefix key value \<union> key_paths prefix rest"
proof -
  let ?full = "fullKey_of prefix key"
  let ?nested = "extractKeys_loop ?full [] (entries value)"
  let ?k2 = "(if isPlainObject value
                   then fold (\<lambda>nestedKey ks. set_add ks nestedKey) ?nested (set_add [] ?full)
                   else set_add [] ?full)"
  have "set (extractKeys_loop prefix [] ((key, value) # rest))
          = set ?k2 \<union> set (extractKeys_loop prefix [] rest)"
    using set_extractKeys_loop [of prefix ?k2 rest] by (simp add: Let_def)
  moreover have "set ?k2 = node_paths prefix key value"
    by (auto simp: node_paths_def key_paths_def extractAllKeys_def set_fold_set_add set_set_add)
  ultimately show ?thesis by (simp add: key_paths_def extractAllKeys_def)
qed

lemma key_paths_Union:
  "key_paths prefix es = (\<Union>(k, v) \<in> set es. node_paths prefix k v)"
  by (induction es) (auto simp: key_paths_Nil key_paths_Cons)

lemma set_assign_new:
  "map_of r k = None \<Longrightarrow> set (assign r k x) = insert (k, x) (set r)"
  by (induction r) (auto split: if_splits)

lemma set_assign_own:
  "distinct (map fst r) \<Longrightarrow> map_of r k = Some old \<Longrightarrow>
   set (assign r k x) = insert (k, x) (set r - {(k, old)})"
proof (induction r)
  case Nil
  then show ?case by simp
next
  case (Cons e r)
  obtain k' v' where e: "e = (k', v')" by (cases e)
  show ?case
  proof (cases "k' = k")
    case True
    then have "v' = old" using Cons.prems e by simp
    moreover have "(k, old) \<notin> set r"
      using Cons.prems(1) e True by (auto simp: image_iff)
    ultimately show ?thesis using e True by auto
  next
    case False
    then have "map_of r k = Some old" using Cons.prems e by simp
    with Cons.IH Cons.prems(1) have "set (assign r k x) = insert (k, x) (set r - {(k, old)})"
      by simp
    then show ?thesis using e False by auto
  qed
qed

lemma key_paths_assign_new:
  "map_of r k = None \<Longrightarrow> key_paths p (assign r k x) = key_paths p r \<union> node_paths p k x"
  by (auto simp: key_paths_Union set_assign_new)

lemma key_paths_assign_own:
  assumes "distinct (map fst r)" and "map_of r k = Some old"
    and "node_paths p k old \<subseteq> node_paths p k x"
  shows "key_paths p (assign r k x) = key_paths p r \<union> node_paths p k x"
proof -
  have mem: "(k, old) \<in> set r" using assms(2) by (rule map_of_SomeD)
  have "key_paths p (assign r k x)
          = node_paths p k x \<union> (\<Union>(k', v') \<in> set r - {(k, old)}. node_paths p k' v')"
    using set_assign_own [OF assms(1,2), of x] by (simp add: key_paths_Union)
  moreover have "key_paths p r
          = node_paths p k old \<union> (\<Union>(k', v') \<in> set r - {(k, old)}. node_paths p k' v')"
    using mem by (auto simp: key_paths_Union)
  ultimately show ?thesis using assms(3) by auto
qed

lemma set_new_Set: "set (new_Set xs) = set xs"
  by (simp add: new_Set_def set_fold_set_add)

text \<open>
  For catalogs whose keys avoid the names inherited from \<^verbatim>\<open>Object.prototype\<close> the merge
  has exactly the key paths of its two operands.
\<close>

lemma node_paths_leaf: "\<not> isPlainObject v \<Longrightarrow> node_paths p k v = {fullKey_of p k}"
  by (simp add: node_paths_def)

lemma node_paths_mem: "fullKey_of p k \<in> node_paths p k v"
  by (simp add: node_paths_def)

lemma loop_key_paths:
  "deepMerge_loop r es = Some M \<Longrightarrow> wf_json (JObj r) \<Longrightarrow> wf_json (JObj es) \<Longrightarrow>
   plain_keys (JObj es) \<Longrightarrow> key_paths p M = key_paths p r \<union> key_paths p es"
proof (induction r es arbitrary: M p rule: deepMerge_loop.induct)
  case (1 result)
  then show ?case by (simp add: key_paths_Nil)
next
  case (2 result key "value" rest)
  have wfr: "wf_json (JObj result)" by fact
  then have dist: "distinct (map fst result)" by simp
  have wfrest: "wf_json (JObj rest)" and wfv: "wf_json value"
    using "2.prems"(3) by auto
  have pkrest: "plain_keys (JObj rest)" and pkv: "plain_keys value"
    and name: "key \<notin> set Object_prototype_names"
    using "2.prems"(4) by auto
  have wfa: "wf_json (JObj (assign result key value))"
    using wfr wfv by (rule wf_assign)
  have goal: "key_paths p M = key_paths p result \<union> key_paths p ((key, value) # rest)"
    if run: "deepMerge_loop r1 rest = Some M"
      and ih: "key_paths p M = key_paths p r1 \<union> key_paths p rest"
      and r1: "key_paths p r1 = key_paths p result \<union> node_paths p key value"
    for r1
    using ih r1 by (auto simp: key_paths_Cons)
  show ?case
  proof (cases "isPlainObject value")
    case plain: True
    show ?thesis
    proof (cases "map_of result key")
      case None
      with "2.prems"(1) plain have np: "key \<noteq> ''__proto__''"
        and run: "deepMerge_loop (assign result key value) rest = Some M"
        by (auto split: if_splits)
      from "2.IH"(1) [OF plain None np run wfa wfrest pkrest]
      show ?thesis
        by (intro goal [OF run]) (simp_all add: key_paths_assign_new [OF None])
    next
      case (Some old)
      show ?thesis
      proof (cases "isPlainObject old")
        case True
        from "2.prems"(1) plain Some True obtain m where
          m: "deepMerge_loop (entries old) (entries value) = Some m"
          and run: "deepMerge_loop (assign result key (JObj m)) rest = Some M"
          by (auto split: option.splits)
        have wfo: "wf_json (JObj (entries old))"
          using wf_entries [OF wf_lookup [OF wfr Some] True] .
        have wfe: "wf_json (JObj (entries value))"
          using wf_entries [OF wfv plain] .
        have pke: "plain_keys (JObj (entries value))"
          using pkv plain by (cases "value") auto
        have wfm: "wf_json (JObj m)"
          using loop_wf [OF m wfo wfe] .
        have wfam: "wf_json (JObj (assign result key (JObj m)))"
          using wfr wfm by (intro wf_assign)
        have inner: "key_paths q m = key_paths q (entries old) \<union> key_paths q (entries value)" for q
          using "2.IH"(2) [OF plain Some True m wfo wfe pke] .
        have node: "node_paths p key (JObj m) = node_paths p key old \<union> node_paths p key value"
          using inner True plain by (auto simp: node_paths_def)
        have "key_paths p (assign result key (JObj m))
                = key_paths p result \<union> node_paths p key (JObj m)"
          using node by (intro key_paths_assign_own [OF dist Some]) auto
        moreover have "node_paths p key old \<subseteq> key_paths p result"
          using map_of_SomeD [OF Some] by (auto simp: key_paths_Union)
        ultimately have r1: "key_paths p (assign result key (JObj m))
                = key_paths p result \<union> node_paths p key value"
          using node by auto
        from "2.IH"(3) [OF plain Some True m run wfam wfrest pkrest]
        show ?thesis by (intro goal [OF run]) (simp_all add: r1)
      next
        case False
        then have run: "deepMerge_loop (assign result key value) rest = Some M"
          using "2.prems"(1) plain Some by simp
        have "node_paths p key old \<subseteq> node_paths p key value"
          using False by (simp add: node_paths_leaf node_paths_mem)
        then have r1: "key_paths p (assign result key value)
                = key_paths p result \<union> node_paths p key value"
          by (rule key_paths_assign_own [OF dist Some])
        from "2.IH"(4) [OF plain Some False run wfa wfrest pkrest]
        show ?thesis by (intro goal [OF run]) (simp_all add: r1)
      qed
    qed
  next
    case leaf: False
    show ?thesis
    proof (cases "key_in key result")
      case True
      then have run: "deepMerge_loop result rest = Some M"
        using "2.prems"(1) leaf by simp
      from True name obtain old where old: "map_of result key = Some old"
        by (auto simp: key_in_def hasOwn_def)
      have "node_paths p key value \<subseteq> node_paths p key old"
        using leaf by (simp add: node_paths_leaf node_paths_mem)
      moreover have "node_paths p key old \<subseteq> key_paths p result"
        using map_of_SomeD [OF old] by (auto simp: key_paths_Union)
      ultimately have r1: "key_paths p result = key_paths p result \<union> node_paths p key value"
        by auto
      from "2.IH"(5) [OF leaf True run wfr wfrest pkrest]
      show ?thesis by (intro goal [OF run]) (use r1 in simp_all)
    next
      case False
      then have run: "deepMerge_loop (assign result key value) rest = Some M"
        using "2.prems"(1) leaf by simp
      from False have None: "map_of result key = None"
        by (simp add: key_in_def hasOwn_def)
      from "2.IH"(6) [OF leaf False run wfa wfrest pkrest]
      show ?thesis
        by (intro goal [OF run]) (simp_all add: key_paths_assign_new [OF None])
    qed
  qed
qed

lemma plain_keys_proto_free: "plain_keys v \<Longrightarrow> proto_free v"
  by (induction v rule: proto_free.induct) (auto simp: Object_prototype_names_def)

lemma deepMerge_key_paths:
  assumes "wf_catalog A" and "wf_catalog B" and "plain_keys (JObj B)"
  shows "\<exists>M. deepMerge A B = Some M
           \<and> set (extractAllKeys M prefix)
               = set (extractAllKeys A prefix) \<union> set (extractAllKeys B prefix)"
proof -
  from assms(3) obtain M where M: "deepMerge A B = Some M"
    using deepMerge_returns [of B A] plain_keys_proto_free by blast
  then have "key_paths prefix M = key_paths prefix A \<union> key_paths prefix B"
    using assms loop_key_paths [of A B M prefix] by (simp add: deepMerge_def wf_catalog_def)
  with M show ?thesis by (simp add: key_paths_def)
qed


section \<open>The merge policies of updateTranslations\<close>

text \<open>
  C1. With \<^verbatim>\<open>overwriteExisting = true\<close> (the incoming-wins policy) the merge of base
  \<^verbatim>\<open>{"a":"old"}\<close> with incoming \<^verbatim>\<open>{"a":"new","b":"added"}\<close> is expected to hold the incoming
  value at \<open>a\<close>. The code computes \<^verbatim>\<open>deepMerge(originalContent, newTranslations)\<close>, and
  \<open>deepMerge\<close> keeps the leaf of its first argument (\<open>deepMerge_keeps_target_leaf\<close>): the
  result holds the old value at \<open>a\<close>, and only the new key \<open>b\<close> comes from the incoming
  tree.
\<close>

theorem overwriteExisting_keeps_base_leaf:
  "updatedContent True [(''a'', JStr ''old'')] [(''a'', JStr ''new''), (''b'', JStr ''added'')]
     = Some [(''a'', JStr ''old''), (''b'', JStr ''added'')]"
  by (simp add: updatedContent_def deepMerge_def key_in_def hasOwn_def Object_prototype_names_def)

text \<open>
  C2. With \<^verbatim>\<open>overwriteExisting = false\<close> (the base-wins policy) a leaf of the base is
  expected to survive the merge. The code computes
  \<^verbatim>\<open>deepMerge(newTranslations, originalContent)\<close>, whose first argument is the incoming tree:
  for base \<^verbatim>\<open>{"a":"old"}\<close> and incoming \<^verbatim>\<open>{"a":"new","b":"added"}\<close> the result holds the new
  value at \<open>a\<close>, so the base leaf is overwritten.
\<close>

theorem no_overwrite_loses_base_leaf:
  "updatedContent False [(''a'', JStr ''old'')] [(''a'', JStr ''new''), (''b'', JStr ''added'')]
     = Some [(''a'', JStr ''new''), (''b'', JStr ''added'')]"
  by (simp add: updatedContent_def deepMerge_def key_in_def hasOwn_def Object_prototype_names_def)


section \<open>Idempotence of the merge\<close>

text \<open>
  C7. Merging is idempotent in its source: for every target \<open>A\<close> and every well-formed
  source \<open>B\<close>, merging \<open>B\<close> into the result of merging \<open>B\<close> into \<open>A\<close> gives that result again.
  (By \<open>deepMerge_returns\<close> the first merge has a result for every source without a
  \<^verbatim>\<open>__proto__\<close> key.)
\<close>

theorem deepMerge_idempotent:
  assumes "wf_catalog B" and "deepMerge A B = Some M"
  shows "deepMerge M B = Some M"
  using assms loop_idem [of A B M] by (simp add: deepMerge_def wf_catalog_def)

text \<open>An instance with a leaf conflict and a nested object on both sides.\<close>

theorem deepMerge_idempotent_witness:
  "wf_catalog [(''a'', JStr ''new''), (''m'', JObj [(''x'', JStr ''1'')])]
   \<and> deepMerge [(''a'', JStr ''old''), (''m'', JObj [(''y'', JStr ''2'')])]
        [(''a'', JStr ''new''), (''m'', JObj [(''x'', JStr ''1'')])]
      = Some [(''a'', JStr ''old''), (''m'', JObj [(''y'', JStr ''2''), (''x'', JStr ''1'')])]
   \<and> deepMerge [(''a'', JStr ''old''), (''m'', JObj [(''y'', JStr ''2''), (''x'', JStr ''1'')])]
        [(''a'', JStr ''new''), (''m'', JObj [(''x'', JStr ''1'')])]
      = Some [(''a'', JStr ''old''), (''m'', JObj [(''y'', JStr ''2''), (''x'', JStr ''1'')])]"
proof -
  let ?A = "[(''a'', JStr ''old''), (''m'', JObj [(''y'', JStr ''2'')])]"
  let ?B = "[(''a'', JStr ''new''), (''m'', JObj [(''x'', JStr ''1'')])]"
  let ?M = "[(''a'', JStr ''old''), (''m'', JObj [(''y'', JStr ''2''), (''x'', JStr ''1'')])]"
  have wf: "wf_catalog ?B"
    by (simp add: wf_catalog_def)
  have run: "deepMerge ?A ?B = Some ?M"
    by (simp add: deepMerge_def key_in_def hasOwn_def Object_prototype_names_def)
  show ?thesis
    using wf run deepMerge_idempotent [OF wf run] by simp
qed


section \<open>Key paths of a merge\<close>

text \<open>
  C10. The key paths of \<open>deepMerge A B\<close> are expected to be those of \<open>A\<close> together with
  those of \<open>B\<close>. A leaf of the source is added only if \<^verbatim>\<open>!(key in result)\<close>, and \<^verbatim>\<open>in\<close> is
  true for a name inherited from \<^verbatim>\<open>Object.prototype\<close> although the target has no such
  key: the source \<^verbatim>\<open>{"constructor":"Builder"}\<close> merged into the empty target gives the
  empty object, and the key path \<open>constructor\<close> of the source is dropped. (For catalogs
  without such names the key paths are as expected: \<open>deepMerge_key_paths\<close>.)
\<close>

theorem deepMerge_drops_inherited_name:
  "deepMerge [] [(''constructor'', JStr ''Builder'')] = Some []
   \<and> extractAllKeys [(''constructor'', JStr ''Builder'')] [] = [''constructor'']
   \<and> extractAllKeys [] [] = []"
  by (simp add: deepMerge_def key_in_def hasOwn_def Object_prototype_names_def
        extractAllKeys_def fullKey_of_def set_add_def)


section \<open>Comparing catalogs\<close>

text \<open>
  C8. Comparing a catalog with itself finds no differences: when the reference file and the
  target file hold the same catalog \<open>A\<close>, \<open>compare\<close> returns a result whose \<open>missingKeys\<close>
  and \<open>extraKeys\<close> are empty.
\<close>

theorem compare_self_no_differences:
  assumes "fs referencePath = Some (Doc A)" and "fs targetPath = Some (Doc A)"
  shows "\<exists>r. compare fs referencePath targetPath = Inr r \<and> missingKeys r = [] \<and> extraKeys r = []"
  using assms by (simp add: compare_def loadJsonFile_def Let_def)

theorem compare_self_no_differences_witness:
  "\<exists>r. compare (Map.empty(''locales/en_US.json'' \<mapsto> Doc [(''a'', JObj [(''b'', JStr ''X'')])]))
          ''locales/en_US.json'' ''locales/en_US.json'' = Inr r
       \<and> missingKeys r = [] \<and> extraKeys r = []"
  using compare_self_no_differences
    [of "Map.empty(''locales/en_US.json'' \<mapsto> Doc [(''a'', JObj [(''b'', JStr ''X'')])])"
        "''locales/en_US.json''" "[(''a'', JObj [(''b'', JStr ''X'')])]" "''locales/en_US.json''"]
  by simp

text \<open>
  The percentage is computed as \<^verbatim>\<open>Math.round(((ref - missing) / ref) * 100)\<close> in doubles.
  With 40 reference keys of which 17 are missing the quotient \<open>23 / 40\<close> is rounded down to
  the nearest double, its product with 100 is the double just below \<open>57.5\<close>, and the result is
  57, where the exact percentage \<open>57.5\<close> rounds to 58.
\<close>

lemma completion_rounding_example:
  "Math_round (js_times (js_div (40 - 17) 40) 100) = Num 57"
  by code_simp

text \<open>
  C4. For an empty reference catalog the completion percentage is expected to be 100. The
  code has no case for it: both counts are 0, the quotient \<open>0 / 0\<close> is \<^verbatim>\<open>NaN\<close>, and so is the
  percentage, for every target.
\<close>

theorem empty_reference_completion_NaN:
  assumes "fs referencePath = Some (Doc [])" and "fs targetPath \<noteq> Some Malformed"
  shows "\<exists>r. compare fs referencePath targetPath = Inr r \<and> missingKeys r = []
             \<and> completionPercentage r = NaN"
  using assms
  by (cases "fs targetPath")
     (auto simp: compare_def loadJsonFile_def Let_def extractKeys_def js_div_def
           split: content.splits)

theorem empty_reference_completion_NaN_witness:
  "\<exists>r. compare (Map.empty(''locales/en_US.json'' \<mapsto> Doc []))
          ''locales/en_US.json'' ''locales/de_DE.json'' = Inr r
       \<and> missingKeys r = [] \<and> completionPercentage r = NaN"
  using empty_reference_completion_NaN
    [of "Map.empty(''locales/en_US.json'' \<mapsto> Doc [])" "''locales/en_US.json''"
        "''locales/de_DE.json''"]
  by simp


section \<open>The order of backup, validation and write\<close>






section \<open>Placeholders\<close>

lemma find_filter: "find P xs = (case filter P xs of [] \<Rightarrow> None | x # _ \<Rightarrow> Some x)"
  by (induction xs) auto

lemma is_brace_token_iff:
  "is_brace_token t \<longleftrightarrow> (\<exists>body. t = ''{'' @ body @ ''}'' \<and> body \<noteq> [] \<and> CHR ''}'' \<notin> set body)"
proof
  assume "is_brace_token t"
  then obtain cs where t: "t = CHR ''{'' # cs" and cs: "cs \<noteq> []" "last cs = CHR ''}''"
    "butlast cs \<noteq> []" "CHR ''}'' \<notin> set (butlast cs)"
    by (auto simp: is_brace_token_def split: list.splits)
  have "cs = butlast cs @ ''}''"
    using cs(1,2) append_butlast_last_id [of cs] by simp
  with t cs show "\<exists>body. t = ''{'' @ body @ ''}'' \<and> body \<noteq> [] \<and> CHR ''}'' \<notin> set body"
    by (intro exI [of _ "butlast cs"]) simp
next
  assume "\<exists>body. t = ''{'' @ body @ ''}'' \<and> body \<noteq> [] \<and> CHR ''}'' \<notin> set body"
  then show "is_brace_token t"
    by (auto simp: is_brace_token_def)
qed

lemma after_last_close_Nil: "after_last_close [] = []"
  by (simp add: after_last_close_def)

lemma after_last_close_append_close:
  "after_last_close (xs @ CHR ''}'' # ys) = after_last_close ys"
proof -
  have "takeWhile (\<lambda>x. x \<noteq> CHR ''}'') (rev ys @ CHR ''}'' # rev xs)
          = takeWhile (\<lambda>x. x \<noteq> CHR ''}'') (rev ys)"
    by (simp add: takeWhile_append takeWhile_eq_all_conv [THEN iffD2])
  then show ?thesis by (simp add: after_last_close_def)
qed

lemma after_last_close_none:
  "CHR ''}'' \<notin> set ys \<Longrightarrow> after_last_close ys = ys"
proof -
  assume "CHR ''}'' \<notin> set ys"
  then have tw: "takeWhile (\<lambda>x. x \<noteq> CHR ''}'') (rev ys) = rev ys"
    by (intro takeWhile_eq_all_conv [THEN iffD2]) auto
  show ?thesis unfolding after_last_close_def tw by simp
qed

lemma after_last_close_Cons:
  "after_last_close (c # ys) =
     (if CHR ''}'' \<in> set ys then after_last_close ys
      else if c = CHR ''}'' then ys else c # ys)"
proof (cases "CHR ''}'' \<in> set ys")
  case True
  then obtain ys1 ys2 where "ys = ys1 @ CHR ''}'' # ys2"
    by (auto dest: split_list)
  then show ?thesis
    using after_last_close_append_close [of "c # ys1" ys2]
      after_last_close_append_close [of ys1 ys2] True by simp
next
  case False
  then show ?thesis
    using after_last_close_append_close [of "[]" ys]
    by (auto simp: after_last_close_none)
qed

text \<open>
  Every match is a token of the text, and every token of the text is matched.
\<close>

lemma match_placeholders_sound:
  "t \<in> set (match_placeholders str) \<Longrightarrow>
     \<exists>body pre post. t = ''{'' @ body @ ''}'' \<and> body \<noteq> [] \<and> CHR ''}'' \<notin> set body
                      \<and> str = pre @ t @ post \<and> CHR ''{'' \<notin> set (after_last_close pre)"
proof (induction str rule: match_placeholders.induct)
  case 1
  then show ?case by simp
next
  case (2 c cs)
  let ?body = "takeWhile (\<lambda>x. x \<noteq> CHR ''}'') cs"
  let ?after = "dropWhile (\<lambda>x. x \<noteq> CHR ''}'') cs"
  have nb: "CHR ''}'' \<notin> set ?body"
    by (auto dest: set_takeWhileD)
  show ?case
  proof (cases "c = CHR ''{'' \<and> ?body \<noteq> [] \<and> ?after \<noteq> []")
    case True
    then have after: "?after = CHR ''}'' # tl ?after"
      using hd_dropWhile [of "\<lambda>x. x \<noteq> CHR ''}''" cs] by (cases ?after) auto
    have cs: "cs = ?body @ CHR ''}'' # tl ?after"
      using takeWhile_dropWhile_id [of "\<lambda>x. x \<noteq> CHR ''}''" cs] after by simp
    from "2.prems" True
    consider "t = c # ?body @ ''}''" | "t \<in> set (match_placeholders (tl ?after))"
      by (auto simp: Let_def)
    then show ?thesis
    proof cases
      case 1
      have "t = ''{'' @ ?body @ ''}'' \<and> ?body \<noteq> [] \<and> CHR ''}'' \<notin> set ?body
              \<and> c # cs = [] @ t @ tl ?after \<and> CHR ''{'' \<notin> set (after_last_close [])"
        using 1 True nb cs by (simp add: after_last_close_Nil)
      then show ?thesis by blast
    next
      case 2
      from "2.IH"(1) [OF _ refl refl _ 2] True
      obtain body pre post where *:
        "t = ''{'' @ body @ ''}''" "body \<noteq> []" "CHR ''}'' \<notin> set body"
        "tl ?after = pre @ t @ post" "CHR ''{'' \<notin> set (after_last_close pre)"
        by auto
      have "c # cs = ((c # ?body) @ CHR ''}'' # pre) @ t @ post"
        using cs *(4) by simp
      moreover have "after_last_close ((c # ?body) @ CHR ''}'' # pre) = after_last_close pre"
        by (rule after_last_close_append_close)
      ultimately show ?thesis using * by metis
    qed
  next
    case False
    then have mem: "t \<in> set (match_placeholders cs)"
      using "2.prems" by (auto simp: Let_def split: if_splits)
    have "\<exists>body pre post. t = ''{'' @ body @ ''}'' \<and> body \<noteq> [] \<and> CHR ''}'' \<notin> set body
            \<and> cs = pre @ t @ post \<and> CHR ''{'' \<notin> set (after_last_close pre)"
    proof (cases "c = CHR ''{''")
      case True
      with False have "\<not> (?body \<noteq> [] \<and> ?after \<noteq> [])" by simp
      from "2.IH"(2) [OF True refl refl this mem] show ?thesis .
    next
      case False
      from "2.IH"(3) [OF False mem] show ?thesis .
    qed
    then obtain body pre post where *:
      "t = ''{'' @ body @ ''}''" "body \<noteq> []" "CHR ''}'' \<notin> set body" "cs = pre @ t @ post"
      "CHR ''{'' \<notin> set (after_last_close pre)"
      by blast
    have "CHR ''{'' \<notin> set (after_last_close (c # pre))"
    proof (cases "CHR ''}'' \<in> set pre")
      case True
      then show ?thesis using *(5) by (simp add: after_last_close_Cons)
    next
      case nc: False
      then have pre: "after_last_close pre = pre" by (rule after_last_close_none)
      have "c \<noteq> CHR ''{''"
      proof
        assume c: "c = CHR ''{''"
        have tw: "?body = pre @ ''{'' @ body"
          using *(1,3,4) nc by (simp add: takeWhile_append takeWhile_tail)
        have dw: "?after = ''}'' @ post"
          using *(1,3,4) nc by (simp add: dropWhile_append)
        from tw dw c False show False by simp
      qed
      then show ?thesis using *(5) pre nc by (simp add: after_last_close_Cons)
    qed
    moreover have "c # cs = (c # pre) @ t @ post" using *(4) by simp
    ultimately show ?thesis using *(1,2,3) by blast
  qed
qed

lemma match_placeholders_complete:
  "str = pre @ ''{'' @ body @ ''}'' @ post \<Longrightarrow> body \<noteq> [] \<Longrightarrow> CHR ''}'' \<notin> set body \<Longrightarrow>
   CHR ''{'' \<notin> set (after_last_close pre) \<Longrightarrow>
   ''{'' @ body @ ''}'' \<in> set (match_placeholders str)"
proof (induction str arbitrary: pre rule: match_placeholders.induct)
  case 1
  then show ?case by simp
next
  case (2 c cs)
  let ?body = "takeWhile (\<lambda>x. x \<noteq> CHR ''}'') cs"
  let ?after = "dropWhile (\<lambda>x. x \<noteq> CHR ''}'') cs"
  show ?case
  proof (cases pre)
    case Nil
    with "2.prems"(1) have c: "c = CHR ''{''" and cs: "cs = body @ ''}'' @ post" by auto
    have "?body = body"
      using cs "2.prems"(3) by (simp add: takeWhile_append takeWhile_tail)
    moreover have "?after = ''}'' @ post"
      using cs "2.prems"(3) by (simp add: dropWhile_append)
    ultimately show ?thesis using c "2.prems"(2) by (simp add: Let_def)
  next
    case (Cons a pre')
    with "2.prems"(1) have a: "a = c" and cs: "cs = pre' @ ''{'' @ body @ ''}'' @ post" by auto
    show ?thesis
    proof (cases "c = CHR ''{''")
      case False
      have "CHR ''{'' \<notin> set (after_last_close pre')"
        using "2.prems"(4) Cons a False
        by (auto simp: after_last_close_Cons after_last_close_none split: if_splits)
      from "2.IH"(3) [OF False cs "2.prems"(2,3) this] show ?thesis
        using False by simp
    next
      case True
      have close: "CHR ''}'' \<in> set pre'"
        using "2.prems"(4) Cons a True by (auto simp: after_last_close_Cons split: if_splits)
      then have alc: "CHR ''{'' \<notin> set (after_last_close pre')"
        using "2.prems"(4) Cons a by (simp add: after_last_close_Cons)
      from close obtain p1 p2 where pre': "pre' = p1 @ CHR ''}'' # p2" and p1: "CHR ''}'' \<notin> set p1"
        by (auto dest: split_list_first)
      have tw: "?body = p1"
        using cs pre' p1 by (simp add: takeWhile_append takeWhile_tail)
      have dw: "?after = CHR ''}'' # p2 @ ''{'' @ body @ ''}'' @ post"
        using cs pre' p1 by (simp add: dropWhile_append)
      show ?thesis
      proof (cases "p1 = []")
        case e: True
        then have "\<not> (?body \<noteq> [] \<and> ?after \<noteq> [])" using tw by simp
        from "2.IH"(2) [OF True refl refl this cs "2.prems"(2,3) alc] show ?thesis
          using True tw e by (simp add: Let_def)
      next
        case ne: False
        then have cond: "?body \<noteq> [] \<and> ?after \<noteq> []" using tw dw by simp
        have rest: "tl ?after = p2 @ ''{'' @ body @ ''}'' @ post" using dw by simp
        have "CHR ''{'' \<notin> set (after_last_close p2)"
          using alc pre' by (simp add: after_last_close_append_close)
        from "2.IH"(1) [OF True refl refl cond rest "2.prems"(2,3) this] show ?thesis
          using True cond by (simp add: Let_def)
      qed
    qed
  qed
qed

text \<open>
  C6, as claimed: only brace-delimited identifiers are extracted. The body of a match may
  hold any character but the closing brace: \<^verbatim>\<open>{a b}\<close> is extracted and is not an identifier
  placeholder.
\<close>

theorem extraction_not_restricted_to_identifiers:
  "placeholderSet ''{a b}'' = [''{a b}''] \<and> \<not> isValidPlaceholder ''{a b}''"
  by (simp add: placeholderSet_def new_Set_def set_add_def Let_def isValidPlaceholder_def
        identifier_chars_def)

text \<open>
  C6, amended. For every text, token extraction returns exactly the set of its tokens
  \<open>brace_tokens\<close>: the substrings made of an opening brace, one or more characters other than
  a closing brace (any such characters, not only letters, digits, underscore and hyphen)
  and a closing brace, taken from the left without overlap, and no other substrings; and
  \<^verbatim>\<open>Hello {name}, {count} items\<close> yields \<^verbatim>\<open>{name}\<close> and \<^verbatim>\<open>{count}\<close>.
\<close>

theorem placeholderSet_exact:
  "set (placeholderSet str) = brace_tokens str
   \<and> placeholderSet ''Hello {name}, {count} items'' = [''{name}'', ''{count}'']"
proof
  show "set (placeholderSet str) = brace_tokens str"
  proof (intro set_eqI iffI)
    fix t assume "t \<in> set (placeholderSet str)"
    then have "t \<in> set (match_placeholders str)"
      by (simp add: placeholderSet_def set_new_Set)
    from match_placeholders_sound [OF this] show "t \<in> brace_tokens str"
      by (auto simp: brace_tokens_def is_brace_token_iff)
  next
    fix t assume "t \<in> brace_tokens str"
    then obtain body pre post where "t = ''{'' @ body @ ''}''" "body \<noteq> []"
      "CHR ''}'' \<notin> set body" "str = pre @ t @ post" "CHR ''{'' \<notin> set (after_last_close pre)"
      by (auto simp: brace_tokens_def is_brace_token_iff)
    then show "t \<in> set (placeholderSet str)"
      using match_placeholders_complete [of str pre body post]
      by (simp add: placeholderSet_def set_new_Set)
  qed
next
  show "placeholderSet ''Hello {name}, {count} items'' = [''{name}'', ''{count}'']"
    by (simp add: placeholderSet_def new_Set_def set_add_def Let_def)
qed

text \<open>Three tokens in a row are all found; an opening brace inside a token starts none.\<close>

theorem placeholderSet_exact_witness:
  "brace_tokens ''{a} {b} {c}'' = {''{a}'', ''{b}'', ''{c}''}
   \<and> brace_tokens ''{a{b}'' = {''{a{b}''}"
  using placeholderSet_exact [of "''{a} {b} {c}''"] placeholderSet_exact [of "''{a{b}''"]
  by (simp add: placeholderSet_def new_Set_def set_add_def Let_def)

text \<open>
  C5, as claimed: the check reports the full sets of missing and of extra tokens. For the
  reference \<^verbatim>\<open>Hi {user}\<close> and the target \<^verbatim>\<open>Hola {usuario}\<close> the one error recorded names
  \<^verbatim>\<open>{user}\<close>; the extra token \<^verbatim>\<open>{usuario}\<close> of the target is not reported.
\<close>

theorem extra_placeholder_not_reported:
  "map context_placeholder
     (snd (validatePlaceholderConsistency [] ''Hi {user}'' ''Hola {usuario}'' ''greeting''))
     = [''{user}'']
   \<and> placeholderSet ''Hola {usuario}'' = [''{usuario}'']
   \<and> placeholderSet ''Hi {user}'' = [''{user}'']"
  by (simp add: validatePlaceholderConsistency_def placeholderSet_def new_Set_def set_add_def
        placeholder_error_def Let_def)

text \<open>
  C5, amended. With \<open>missing\<close> the tokens of the reference absent from the target and \<open>extra\<close>
  the tokens of the target absent from the reference, the check returns \<open>False\<close> exactly when
  one of the two is non-empty, and records one error: for the first missing token, or, when
  none is missing, for the first extra token. Otherwise it returns \<open>True\<close> and records
  nothing.
\<close>

theorem placeholder_check_reports_first_only:
  "validatePlaceholderConsistency errors referenceText translatedText path =
     (let missing = filter (\<lambda>p. p \<notin> set (placeholderSet translatedText))
                      (placeholderSet referenceText);
          extra = filter (\<lambda>p. p \<notin> set (placeholderSet referenceText))
                    (placeholderSet translatedText)
      in if missing \<noteq> [] then
           (False, errors @ [placeholder_error ''Missing'' (hd missing) path
                               referenceText translatedText])
         else if extra \<noteq> [] then
           (False, errors @ [placeholder_error ''Extra'' (hd extra) path
                               referenceText translatedText])
         else (True, errors))"
  by (auto simp: validatePlaceholderConsistency_def Let_def find_filter split: list.splits)

theorem placeholder_check_reports_first_only_witness:
  "validatePlaceholderConsistency [] ''Hi {user}'' ''Hola {usuario}'' ''greeting''
     = (False, [placeholder_error ''Missing'' ''{user}'' ''greeting''
                  ''Hi {user}'' ''Hola {usuario}''])"
  using placeholder_check_reports_first_only
    [of "[]" "''Hi {user}''" "''Hola {usuario}''" "''greeting''"]
  by (simp add: placeholderSet_def new_Set_def set_add_def Let_def)


section \<open>CSV fields\<close>

lemma replace_quotes_concat:
  "replace_quotes s = concat (map (\<lambda>c. if c = CHR 0x22 then [CHR 0x22, CHR 0x22] else [c]) s)"
  by (induction s) auto

text \<open>
  C9. A field that contains a comma, a double quote or a newline character (line feed or
  carriage return) is put between double quotes with each of its double quotes doubled;
  every other field is emitted unchanged. (A field that is \<^verbatim>\<open>null\<close> or \<^verbatim>\<open>undefined\<close> is
  emitted as the empty text.)
\<close>

theorem escapeCSVValue_rfc4180:
  "escapeCSVValue (CsvText s) =
     (if CHR '','' \<in> set s \<or> CHR 0x22 \<in> set s \<or> CHR 0x0A \<in> set s \<or> CHR 0x0D \<in> set s
      then rfc4180_quoted s else s)
   \<and> escapeCSVValue CsvNull = []"
  by (simp add: string_includes_def rfc4180_quoted_def replace_quotes_concat)

theorem escapeCSVValue_rfc4180_witness:
  "escapeCSVValue (CsvText [CHR ''a'', CHR 0x22, CHR ''b'', CHR '','', CHR ''c''])
     = [CHR 0x22, CHR ''a'', CHR 0x22, CHR 0x22, CHR ''b'', CHR '','', CHR ''c'', CHR 0x22]
   \<and> escapeCSVValue (CsvText ''menu.home'') = ''menu.home''"
  using escapeCSVValue_rfc4180 [of "[CHR ''a'', CHR 0x22, CHR ''b'', CHR '','', CHR ''c'']"]
    escapeCSVValue_rfc4180 [of "''menu.home''"]
  by (simp add: rfc4180_quoted_def)

end
